theory Spec2Isabelle
  imports Main "HOL-Library.AList"
begin

section \<open>Data model of the league bot (gnk\_bot.py)\<close>

text \<open>
  The bot keeps three JSON files and one in-memory dictionary. A Python dictionary keeps
  its keys in insertion order, so each of them is an association list with the dictionary
  operations \<open>map_of\<close> (lookup), \<open>AList.update\<close> (\<open>d[k] = v\<close>: in place when the key
  exists, appended otherwise) and \<open>AList.delete\<close> (\<open>d.pop(k)\<close>, \<open>del d[k]\<close>).
  The files are keyed by \<open>str(user_id)\<close>; \<open>str\<close> is injective on integers, so the
  keys are the integers themselves.

  Every event handler is modelled as one step from state to state: the file contents
  a handler leaves behind are the ones of its last \<open>save_json\<close>. Messages to channels
  and interactions are taken to be delivered; a direct message to a user can raise
  \<open>discord.Forbidden\<close>, which is a parameter \<open>dm\<close> of the handlers that send one
  outside a \<open>try\<close> block (\<open>dm u\<close> holds when the message to \<open>u\<close> raises).
\<close>

record match_entry =
  opp :: int
  res :: string
  type :: string

record run =
  name :: string
  run_id :: string
  leader :: string
  base :: string
  opponents_played :: "int list"
  match_results :: "match_entry list"
  ended_at :: "int option"
  user_id :: "int option"

text \<open>
  \<open>ended_at\<close> and \<open>user_id\<close> are the two keys that only \<open>archive_run\<close> writes;
  \<open>None\<close> is the absent key. Time stamps are integers (microseconds).
\<close>

text \<open>
  A \<open>datetime\<close> that carries a zone: its wall-clock reading and the zone's offset from
  UTC in force for it. A stored ISO string parses to one of these or, when it has no
  offset, to a naive wall-clock reading.
\<close>

record datetime =
  wall :: int
  utcoffset :: int

datatype stored_time = Naive int | Aware datetime

record state =
  runs :: "(int \<times> run) list"
  completed :: "(string \<times> run) list"
  history :: "(int \<times> stored_time list) list"
  player_queue :: "(int \<times> int) list"

datatype error = KeyError | Forbidden

datatype reply =
    RunNotFound | NoStoredUser | AlreadyActive | Reactivated
  | NoActiveRun | Resolved
  | SelfMatch | ForceLogged | ErrorOccurred
  | OnlyLoser | ResultLogged | DisputeLogged
  | AlreadyQueued | EnteredQueue | StartRunFirst
  | RunCancelled | RunDeleted

definition MAX_RUNS_PER_DAY :: nat where
  "MAX_RUNS_PER_DAY = 2"

definition MATCH_LIMIT :: nat where
  "MATCH_LIMIT = 3"

section \<open>Archiving and reactivation\<close>

definition wins :: "run \<Rightarrow> nat" where
  "wins r = length (filter (\<lambda>m. res m = ''W'') (match_results r))"

definition losses :: "run \<Rightarrow> nat" where
  "losses r = length (filter (\<lambda>m. res m = ''L'') (match_results r))"

text \<open>The trophy announcement is a task handed to the transport; it changes no state.\<close>

definition trophy :: "run \<Rightarrow> bool" where
  "trophy r = (wins r = 3 \<and> losses r = 0)"

definition archive_run :: "int \<Rightarrow> int \<Rightarrow> state \<Rightarrow> state \<times> run option" where
  "archive_run now uid st =
     (case map_of (runs st) uid of
        None \<Rightarrow> (st, None)
      | Some r \<Rightarrow>
          let run_data = r\<lparr>ended_at := Some now, user_id := Some uid\<rparr>
          in (st\<lparr>runs := AList.delete uid (runs st),
                 completed := AList.update (run_id run_data) run_data (completed st),
                 player_queue := AList.delete uid (player_queue st)\<rparr>,
              Some run_data))"

text \<open>
  The admin command. On the two failure branches nothing is saved, so the files keep
  their contents (the \<open>pop\<close> and the put-back only touch the loaded copy).
\<close>

definition reactivate_run :: "string \<Rightarrow> state \<Rightarrow> state \<times> reply" where
  "reactivate_run rid st =
     (case map_of (completed st) rid of
        None \<Rightarrow> (st, RunNotFound)
      | Some run_data \<Rightarrow>
          (case user_id run_data of
             None \<Rightarrow> (st, NoStoredUser)
           | Some u \<Rightarrow>
               if map_of (runs st) u \<noteq> None then (st, AlreadyActive)
               else (st\<lparr>runs := AList.update u run_data (runs st),
                        completed := AList.delete rid (completed st)\<rparr>,
                     Reactivated)))"

text \<open>
  The Approve button of a player's reactivation request (\<open>ReactivationApprovalView\<close>):
  \<open>uid\<close> is the requesting player, \<open>rid\<close> the run id typed in.
\<close>

definition approve :: "int \<Rightarrow> string \<Rightarrow> state \<Rightarrow> state \<times> reply" where
  "approve uid rid st =
     (case map_of (completed st) rid of
        None \<Rightarrow> (st, RunNotFound)
      | Some run_data \<Rightarrow>
          (st\<lparr>runs := AList.update uid run_data (runs st),
              completed := AList.delete rid (completed st)\<rparr>,
           Reactivated))"

section \<open>Recording a match result\<close>

text \<open>
  The loop over \<open>[(winner, loser, "W"), (loser, winner, "L")]\<close> on the loaded copy of
  the active runs; \<open>runs[str(uid)]\<close> raises \<open>KeyError\<close> for a player without a run.
\<close>

fun log_results :: "string \<Rightarrow> (int \<times> int \<times> string) list \<Rightarrow> (int \<times> run) list
    \<Rightarrow> error + (int \<times> run) list" where
  "log_results typ [] rs = Inr rs"
| "log_results typ ((uid, op, wl) # rest) rs =
     (case map_of rs uid of
        None \<Rightarrow> Inl KeyError
      | Some r \<Rightarrow>
          log_results typ rest
            (AList.update uid
               (r\<lparr>opponents_played := opponents_played r @ [op],
                  match_results := match_results r @ [\<lparr>opp = op, res = wl, type = typ\<rparr>]\<rparr>)
               rs))"

text \<open>
  The completion loop \<open>for uid in [winner, loser]\<close>: the length is read from the loaded
  copy \<open>rs\<close>, \<open>archive_run\<close> works on the files, and the notice to the player is sent
  outside any \<open>try\<close>, so a refused direct message leaves the loop.
\<close>

fun archive_finished :: "(int \<Rightarrow> bool) \<Rightarrow> int \<Rightarrow> (int \<times> run) list \<Rightarrow> int list \<Rightarrow> state
    \<Rightarrow> state \<times> error option" where
  "archive_finished dm now rs [] st = (st, None)"
| "archive_finished dm now rs (uid # uids) st =
     (case map_of rs uid of
        None \<Rightarrow> (st, Some KeyError)
      | Some r \<Rightarrow>
          if length (match_results r) \<ge> MATCH_LIMIT then
            (let st' = fst (archive_run now uid st)
             in if dm uid then (st', Some Forbidden)
                else archive_finished dm now rs uids st')
          else archive_finished dm now rs uids st)"

text \<open>
  \<open>ResultView\<close>: the confirmation request sent to the reported loser. \<open>stopped\<close> is
  set by \<open>self.stop()\<close>.
\<close>

record view =
  winner_id :: int
  loser_id :: int
  match_type :: string
  confirmed :: bool
  stopped :: bool

definition ResultView :: "int \<Rightarrow> int \<Rightarrow> string \<Rightarrow> view" where
  "ResultView w l typ =
     \<lparr>winner_id = w, loser_id = l, match_type = typ, confirmed = False, stopped = False\<rparr>"

text \<open>\<open>is_auto\<close> only selects the wording of the two notices.\<close>

definition process_results :: "(int \<Rightarrow> bool) \<Rightarrow> int \<Rightarrow> bool \<Rightarrow> view \<Rightarrow> state
    \<Rightarrow> view \<times> state \<times> error option" where
  "process_results dm now is_auto v st =
     (let v1 = v\<lparr>confirmed := True\<rparr>
      in case log_results (match_type v)
                [(winner_id v, loser_id v, ''W''), (loser_id v, winner_id v, ''L'')] (runs st) of
           Inl e \<Rightarrow> (v1, st, Some e)
         | Inr rs \<Rightarrow>
             (case archive_finished dm now rs [winner_id v, loser_id v] (st\<lparr>runs := rs\<rparr>) of
                (st', Some e) \<Rightarrow> (v1, st', Some e)
              | (st', None) \<Rightarrow> (v1\<lparr>stopped := True\<rparr>, st', None)))"

definition confirm :: "(int \<Rightarrow> bool) \<Rightarrow> int \<Rightarrow> int \<Rightarrow> view \<Rightarrow> state
    \<Rightarrow> view \<times> state \<times> (error + reply)" where
  "confirm dm now actor v st =
     (if actor \<noteq> loser_id v then (v, st, Inr OnlyLoser)
      else case process_results dm now False v st of
             (v', st', Some e) \<Rightarrow> (v', st', Inl e)
           | (v', st', None) \<Rightarrow> (v', st', Inr ResultLogged))"

text \<open>
  A dispute marks and stops the view, tells the reported winner (outside any \<open>try\<close>)
  and hands the match to the admin channel; it writes no file.
\<close>

definition dispute :: "(int \<Rightarrow> bool) \<Rightarrow> int \<Rightarrow> view \<Rightarrow> state
    \<Rightarrow> view \<times> state \<times> (error + reply)" where
  "dispute dm actor v st =
     (if actor \<noteq> loser_id v then (v, st, Inr OnlyLoser)
      else (let v' = v\<lparr>confirmed := True, stopped := True\<rparr>
            in if dm (winner_id v) then (v', st, Inl Forbidden)
               else (v', st, Inr DisputeLogged)))"

definition on_timeout :: "(int \<Rightarrow> bool) \<Rightarrow> int \<Rightarrow> view \<Rightarrow> state \<Rightarrow> view \<times> state \<times> error option" where
  "on_timeout dm now v st =
     (if \<not> confirmed v then process_results dm now True v st else (v, st, None))"

text \<open>\<open>DisputeResolutionView.resolve\<close>: the admin picks the winner of a disputed match.\<close>

definition resolve :: "(int \<Rightarrow> bool) \<Rightarrow> int \<Rightarrow> int \<Rightarrow> int \<Rightarrow> state \<Rightarrow> state \<times> (error + reply)" where
  "resolve dm now winner loser st =
     (if map_of (runs st) winner = None \<or> map_of (runs st) loser = None
      then (st, Inr NoActiveRun)
      else case log_results ''admin_dispute''
                  [(winner, loser, ''W''), (loser, winner, ''L'')] (runs st) of
             Inl e \<Rightarrow> (st, Inl e)
           | Inr rs \<Rightarrow>
               (case archive_finished dm now rs [winner, loser] (st\<lparr>runs := rs\<rparr>) of
                  (st', Some e) \<Rightarrow> (st', Inl e)
                | (st', None) \<Rightarrow> (st', Inr Resolved)))"

text \<open>
  The admin command \<open>force_result\<close>. Its body runs inside \<open>try\<close>: whatever is raised
  ends the command with the error reply, after the mutations made so far.
\<close>

definition force_result :: "(int \<Rightarrow> bool) \<Rightarrow> int \<Rightarrow> int \<Rightarrow> int \<Rightarrow> state \<Rightarrow> state \<times> reply" where
  "force_result dm now winner loser st =
     (if map_of (runs st) winner = None \<or> map_of (runs st) loser = None
      then (st, NoActiveRun)
      else if winner = loser then (st, SelfMatch)
      else case log_results ''admin_forced''
                  [(winner, loser, ''W''), (loser, winner, ''L'')] (runs st) of
             Inl e \<Rightarrow> (st, ErrorOccurred)
           | Inr rs \<Rightarrow>
               (case archive_finished dm now rs [winner, loser] (st\<lparr>runs := rs\<rparr>) of
                  (st', Some e) \<Rightarrow> (st', ErrorOccurred)
                | (st', None) \<Rightarrow> (st', ForceLogged)))"

section \<open>The matchmaking queue\<close>

text \<open>
  \<open>player_queue\<close> maps a user id to the time the player joined. \<open>check_for_match\<close>
  sorts its items by join time (\<open>sorted\<close> is stable, as \<open>sort_key\<close> is) and runs the two
  nested loops over the sorted ids. \<open>runs[str(p1_id)]\<close> is read inside the inner loop,
  so a queued player without a run raises only once there is a later player to try.
\<close>

fun find_pair :: "(int \<times> run) list \<Rightarrow> int list \<Rightarrow> error + (int \<times> int) option" where
  "find_pair rs [] = Inr None"
| "find_pair rs [p1] = Inr None"
| "find_pair rs (p1 # p # ps) =
     (case map_of rs p1 of
        None \<Rightarrow> Inl KeyError
      | Some r \<Rightarrow>
          (case find (\<lambda>p2. p2 \<notin> set (opponents_played r)) (p # ps) of
             Some p2 \<Rightarrow> Inr (Some (p1, p2))
           | None \<Rightarrow> find_pair rs (p # ps)))"

text \<open>
  Both players are popped before the two match notices are composed; the notice to the
  first player reads the second player's run, which raises when it is gone. The two
  notices are sent outside any \<open>try\<close>.
\<close>

definition check_for_match :: "(int \<Rightarrow> bool) \<Rightarrow> state
    \<Rightarrow> state \<times> (error + (int \<times> int) option)" where
  "check_for_match dm st =
     (let sorted_queue = sort_key snd (player_queue st);
          uids = map fst sorted_queue
      in case find_pair (runs st) uids of
           Inl e \<Rightarrow> (st, Inl e)
         | Inr None \<Rightarrow> (st, Inr None)
         | Inr (Some (p1_id, p2_id)) \<Rightarrow>
             (let st' = st\<lparr>player_queue :=
                            AList.delete p2_id (AList.delete p1_id (player_queue st))\<rparr>
              in if map_of (runs st) p2_id = None then (st', Inl KeyError)
                 else if dm p1_id \<or> dm p2_id then (st', Inl Forbidden)
                 else (st', Inr (Some (p1_id, p2_id)))))"

definition join_queue_logic :: "(int \<Rightarrow> bool) \<Rightarrow> int \<Rightarrow> int \<Rightarrow> state
    \<Rightarrow> state \<times> (error + (int \<times> int) option)" where
  "join_queue_logic dm now uid st =
     check_for_match dm (st\<lparr>player_queue := AList.update uid now (player_queue st)\<rparr>)"

text \<open>The \<open>ENTER_QUEUE\<close> branch of \<open>on_message\<close>.\<close>

definition enter_queue :: "(int \<Rightarrow> bool) \<Rightarrow> int \<Rightarrow> int \<Rightarrow> state
    \<Rightarrow> state \<times> (error + reply)" where
  "enter_queue dm now uid st =
     (if map_of (runs st) uid \<noteq> None then
        (if map_of (player_queue st) uid \<noteq> None then (st, Inr AlreadyQueued)
         else case join_queue_logic dm now uid st of
                (st', Inl e) \<Rightarrow> (st', Inl e)
              | (st', Inr m) \<Rightarrow> (st', Inr EnteredQueue))
      else (st, Inr StartRunFirst))"

section \<open>Admin removal of runs\<close>

definition cancel_run :: "int \<Rightarrow> state \<Rightarrow> state \<times> reply" where
  "cancel_run uid st =
     (if map_of (runs st) uid = None then (st, NoActiveRun)
      else (st\<lparr>runs := AList.delete uid (runs st),
               player_queue := AList.delete uid (player_queue st),
               history := AList.delete uid (history st)\<rparr>,
            RunCancelled))"

text \<open>
  \<open>delete_run\<close> looks in the archive first; otherwise it walks the active runs in file
  order and deletes the first one that carries the run id.
\<close>

definition delete_run :: "string \<Rightarrow> state \<Rightarrow> state \<times> reply" where
  "delete_run rid st =
     (if map_of (completed st) rid \<noteq> None
      then (st\<lparr>completed := AList.delete rid (completed st)\<rparr>, RunDeleted)
      else case find (\<lambda>(uid, data). run_id data = rid) (runs st) of
             Some (uid, data) \<Rightarrow> (st\<lparr>runs := AList.delete uid (runs st)\<rparr>, RunDeleted)
           | None \<Rightarrow> (st, RunNotFound))"

section \<open>The daily limit\<close>

text \<open>
  Instants are microseconds since the epoch, in UTC. The zone is a parameter \<open>tz\<close>: the
  offset of US/Pacific from UTC in force at an instant. \<open>datetime.now(tz)\<close> and
  \<open>astimezone\<close> attach the offset in force at the instant converted; \<open>replace\<close> and the
  subtraction of a \<open>timedelta\<close> change the wall-clock reading and keep the offset.
  Two zone-carrying values compare by their instants.
\<close>

definition DAY :: int where
  "DAY = 86400000000"

definition HOUR :: int where
  "HOUR = 3600000000"

definition instant :: "datetime \<Rightarrow> int" where
  "instant d = wall d - utcoffset d"

definition astimezone :: "(int \<Rightarrow> int) \<Rightarrow> datetime \<Rightarrow> datetime" where
  "astimezone tz d = \<lparr>wall = instant d + tz (instant d), utcoffset = tz (instant d)\<rparr>"

definition localize_utc :: "int \<Rightarrow> datetime" where
  "localize_utc w = \<lparr>wall = w, utcoffset = 0\<rparr>"

definition get_last_3am_pacific :: "(int \<Rightarrow> int) \<Rightarrow> int \<Rightarrow> datetime" where
  "get_last_3am_pacific tz now =
     (let now_pacific = astimezone tz (localize_utc now);
          today_3am = now_pacific\<lparr>wall := (wall now_pacific div DAY) * DAY + 3 * HOUR\<rparr>
      in if instant now_pacific < instant today_3am
         then today_3am\<lparr>wall := wall today_3am - DAY\<rparr>
         else today_3am)"

definition can_start_run :: "(int \<Rightarrow> int) \<Rightarrow> int \<Rightarrow> int \<Rightarrow> state \<Rightarrow> bool" where
  "can_start_run tz now uid st =
     (let user_runs = (case map_of (history st) uid of None \<Rightarrow> [] | Some l \<Rightarrow> l);
          cutoff = get_last_3am_pacific tz now;
          count = fold (\<lambda>ts count.
                     let run_time = (case ts of
                                       Naive w \<Rightarrow> astimezone tz (localize_utc w)
                                     | Aware d \<Rightarrow> d)
                     in if instant cutoff < instant run_time then count + 1 else count)
                    user_runs (0::nat)
      in count < MAX_RUNS_PER_DAY)"

section \<open>Vocabulary of the properties\<close>

text \<open>The run \<open>r\<close> with one more match against \<open>op\<close> on it.\<close>

definition logged :: "run \<Rightarrow> int \<Rightarrow> string \<Rightarrow> string \<Rightarrow> run" where
  "logged r op wl typ =
     r\<lparr>opponents_played := opponents_played r @ [op],
       match_results := match_results r @ [\<lparr>opp = op, res = wl, type = typ\<rparr>]\<rparr>"

text \<open>
  Player \<open>p\<close> holds the run \<open>r\<close>: it is the player's active run, or the player has no
  active run and \<open>r\<close> sits in the archive under its run id, stamped at \<open>now\<close> for \<open>p\<close>.
\<close>

definition holds_run :: "state \<Rightarrow> int \<Rightarrow> int \<Rightarrow> run \<Rightarrow> bool" where
  "holds_run st now p r =
     (map_of (runs st) p = Some r \<or>
      (map_of (runs st) p = None \<and>
       map_of (completed st) (run_id r) = Some (r\<lparr>ended_at := Some now, user_id := Some p\<rparr>)))"

text \<open>
  The files as \<open>save_json\<close> leaves them once the win of \<open>w\<close> over \<open>l\<close> is appended
  to the runs \<open>rw\<close> of the winner and \<open>rl\<close> of the loser.
\<close>

definition saved :: "string \<Rightarrow> int \<Rightarrow> int \<Rightarrow> run \<Rightarrow> run \<Rightarrow> state \<Rightarrow> state" where
  "saved typ w l rw rl st =
     st\<lparr>runs := AList.update l (logged rl w ''L'' typ)
                  (AList.update w (logged rw l ''W'' typ) (runs st))\<rparr>"

text \<open>
  Every active run has room for one more match; no run, active or archived, holds more
  than \<open>MATCH_LIMIT\<close> matches.
\<close>

definition runs_below_limit :: "state \<Rightarrow> bool" where
  "runs_below_limit st =
     list_all (\<lambda>(u, r). length (match_results r) < MATCH_LIMIT) (runs st)"

definition within_limit :: "state \<Rightarrow> bool" where
  "within_limit st =
     (list_all (\<lambda>(u, r). length (match_results r) \<le> MATCH_LIMIT) (runs st) \<and>
      list_all (\<lambda>(k, r). length (match_results r) \<le> MATCH_LIMIT) (completed st))"

text \<open>
  Player \<open>p\<close> has been archived at \<open>now\<close>: no active run, not in the queue, and the
  archive holds a full record, stamped \<open>now\<close>, under the run id.
\<close>

definition archived_at :: "state \<Rightarrow> int \<Rightarrow> int \<Rightarrow> string \<Rightarrow> bool" where
  "archived_at st now p rid =
     (map_of (runs st) p = None \<and> map_of (player_queue st) p = None \<and>
      (case map_of (completed st) rid of
         None \<Rightarrow> False
       | Some r \<Rightarrow> length (match_results r) = MATCH_LIMIT \<and> ended_at r = Some now))"

text \<open>
  What a recorded result of \<open>w\<close> over \<open>l\<close> leaves behind, from the state \<open>st\<close> to
  \<open>st'\<close>: no run above the limit; and, when the completion notice to the winner is not
  refused, again room in every active run, and each of the two players whose run was one
  match short of the limit archived.
\<close>

definition limit_kept :: "(int \<Rightarrow> bool) \<Rightarrow> int \<Rightarrow> int \<Rightarrow> int \<Rightarrow> state \<Rightarrow> state \<Rightarrow> bool" where
  "limit_kept dm now w l st st' =
     (within_limit st' \<and>
      (\<not> dm w \<longrightarrow>
         runs_below_limit st' \<and>
         (case (map_of (runs st) w, map_of (runs st) l) of
            (Some rw, Some rl) \<Rightarrow>
              (Suc (length (match_results rw)) = MATCH_LIMIT \<longrightarrow> archived_at st' now w (run_id rw)) \<and>
              (Suc (length (match_results rl)) = MATCH_LIMIT \<longrightarrow> archived_at st' now l (run_id rl))
          | _ \<Rightarrow> True)))"


text \<open>
  The instant of a stored time stamp, with a stamp that has no zone read as UTC.
\<close>

fun utc_instant :: "stored_time \<Rightarrow> int" where
  "utc_instant (Naive w) = w"
| "utc_instant (Aware d) = wall d - utcoffset d"

section \<open>Concrete states used in the examples\<close>


definition demo_run :: "string \<Rightarrow> string \<Rightarrow> run" where
  "demo_run nm rid =
     \<lparr>name = nm, run_id = rid, leader = ''Han'', base = ''Echo Base'', opponents_played = [],
      match_results = [], ended_at = None, user_id = None\<rparr>"

definition demo_state :: state where
  "demo_state =
     \<lparr>runs = [(1, demo_run ''p'' ''a1''), (2, demo_run ''q'' ''b2'')],
      completed = [(''c3'', (demo_run ''s'' ''c3'')\<lparr>ended_at := Some 7, user_id := Some 3\<rparr>)],
      history = [], player_queue = [(1, 10), (2, 20)]\<rparr>"

text \<open>Player 1 has played two matches of the run, player 2 none.\<close>

definition demo_state2 :: state where
  "demo_state2 =
     \<lparr>runs = [(1, (demo_run ''p'' ''a1'')
                    \<lparr>opponents_played := [5, 6],
                      match_results := [\<lparr>opp = 5, res = ''W'', type = ''queue''\<rparr>,
                                        \<lparr>opp = 6, res = ''W'', type = ''queue''\<rparr>]\<rparr>),
              (2, demo_run ''q'' ''b2'')],
      completed = [], history = [], player_queue = []\<rparr>"



text \<open>Two behaviours of the transport: every notice is delivered; player 1 refuses them.\<close>

definition all_delivered :: "int \<Rightarrow> bool" where
  "all_delivered u = False"

definition player1_refuses :: "int \<Rightarrow> bool" where
  "player1_refuses u = (u = 1)"

text \<open>
  A confirmation that ends in the refused completion notice, the reactivation of the
  run it archived, and a second click on the same view.
\<close>

definition first_confirm :: "view \<times> state \<times> (error + reply)" where
  "first_confirm = confirm player1_refuses 30 2 (ResultView 1 2 ''queue'') demo_state2"

definition second_confirm :: "view \<times> state \<times> (error + reply)" where
  "second_confirm =
     confirm all_delivered 40 2 (fst first_confirm)
       (fst (reactivate_run ''a1'' (fst (snd first_confirm))))"

text \<open>A full run is reactivated and gets a fourth result.\<close>

definition full_run_reactivated :: "state \<times> reply" where
  "full_run_reactivated =
     reactivate_run ''a1'' (fst (force_result all_delivered 30 1 2 demo_state2))"

definition fourth_result :: "state \<times> reply" where
  "fourth_result = force_result all_delivered 40 1 2 (fst full_run_reactivated)"

text \<open>
  The offset of US/Pacific from UTC over 2026: daylight time, seven hours behind, from
  8 March 10:00 UTC until 1 November 09:00 UTC, and standard time, eight hours behind,
  before and after. Days count from 1 January 1970; 31 October 2026 is day 20757.
\<close>

definition us_pacific_2026 :: "int \<Rightarrow> int" where
  "us_pacific_2026 t =
     (if 20520 * DAY + 10 * HOUR \<le> t \<and> t < 20758 * DAY + 9 * HOUR then - 7 * HOUR
      else - 8 * HOUR)"

text \<open>1 November 2026, 09:30 UTC, which is 01:30 standard time.\<close>

definition fall_back_night :: int where
  "fall_back_night = 20758 * DAY + 9 * HOUR + HOUR div 2"

text \<open>
  Player 1 started two runs on 31 October 2026, at 10:15 and 10:30 UTC, stored as
  \<open>log_new_run_timestamp\<close> writes them.
\<close>

definition demo_fall_back :: state where
  "demo_fall_back =
     \<lparr>runs = [], completed = [],
      history = [(1, [Aware \<lparr>wall = 20757 * DAY + 10 * HOUR + HOUR div 4, utcoffset = 0\<rparr>,
                      Aware \<lparr>wall = 20757 * DAY + 10 * HOUR + HOUR div 2, utcoffset = 0\<rparr>])],
      player_queue = []\<rparr>"

section \<open>Properties\<close>

subsection \<open>Archive and reactivate\<close>

text \<open>
  C7. Archiving a player's active run and then reactivating it by its run id, through
  the admin command or through an approved request of that player, puts back an active
  run under the same player with the same \<open>match_results\<close>, \<open>opponents_played\<close>,
  \<open>leader\<close>, \<open>base\<close> and \<open>run_id\<close>; the run id is no longer in the archive.
\<close>

theorem archive_reactivate_round_trip:
  assumes "map_of (runs st) uid = Some r"
  shows "let st1 = fst (archive_run now uid st);
             st2 = fst (reactivate_run (run_id r) st1);
             r' = r\<lparr>ended_at := Some now, user_id := Some uid\<rparr>
         in map_of (runs st1) uid = None \<and>
            map_of (completed st1) (run_id r) = Some r' \<and>
            reactivate_run (run_id r) st1 = (st2, Reactivated) \<and>
            approve uid (run_id r) st1 = (st2, Reactivated) \<and>
            map_of (runs st2) uid = Some r' \<and>
            map_of (completed st2) (run_id r) = None \<and>
            match_results r' = match_results r \<and>
            opponents_played r' = opponents_played r \<and>
            leader r' = leader r \<and> base r' = base r \<and> run_id r' = run_id r"
  using assms
  by (simp add: archive_run_def reactivate_run_def approve_def Let_def
        AList.update_conv' AList.delete_conv')

theorem archive_reactivate_round_trip_witness:
  "map_of (runs \<lparr>runs = [(1, demo_run ''p'' ''a1'')], completed = [], history = [],
                 player_queue = [(1, 5)]\<rparr>) 1 = Some (demo_run ''p'' ''a1'') \<and>
   fst (reactivate_run ''a1''
          (fst (archive_run 7 1 \<lparr>runs = [(1, demo_run ''p'' ''a1'')], completed = [],
                                 history = [], player_queue = [(1, 5)]\<rparr>)))
     = \<lparr>runs = [(1, (demo_run ''p'' ''a1'')\<lparr>ended_at := Some 7, user_id := Some 1\<rparr>)],
        completed = [], history = [], player_queue = []\<rparr>"
  using archive_reactivate_round_trip
    [of "\<lparr>runs = [(1, demo_run ''p'' ''a1'')], completed = [], history = [],
          player_queue = [(1, 5)]\<rparr>" 1 "demo_run ''p'' ''a1''" 7]
  by (simp add: archive_run_def reactivate_run_def approve_def demo_run_def Let_def)

subsection \<open>Reactivation\<close>

text \<open>
  C6, counterexample. Reactivating an archived run through the admin command puts the
  record back with its \<open>ended_at\<close> stamp still on it: the claim that \<open>ended_at\<close> is
  cleared fails.
\<close>

theorem reactivate_keeps_ended_at:
  "reactivate_run ''c3'' demo_state
     = (\<lparr>runs = [(1, demo_run ''p'' ''a1''), (2, demo_run ''q'' ''b2''),
                 (3, (demo_run ''s'' ''c3'')\<lparr>ended_at := Some 7, user_id := Some 3\<rparr>)],
         completed = [], history = [], player_queue = [(1, 10), (2, 20)]\<rparr>, Reactivated)
   \<and> map_option ended_at (map_of (runs (fst (reactivate_run ''c3'' demo_state))) 3)
       = Some (Some 7)"
  by (simp add: reactivate_run_def demo_state_def demo_run_def)

text \<open>
  C6, as amended. The admin command \<open>reactivate_run\<close> fails and changes nothing when
  the run id is not archived, when the archived record names no owner, and when the
  named owner has an active run; otherwise it moves the record, as it is, from the
  archive to the active runs under the named owner. The Approve button of a player's
  request fails and changes nothing when the run id is not archived; when the requesting
  player has no active run it moves the record, as it is, to the active runs under that
  player. In both moves every other entry of both collections, the queue and the history
  stay as they were, and the record keeps its \<open>ended_at\<close>.
\<close>

theorem reactivation_outcomes:
  "(map_of (completed st) rid = None \<longrightarrow>
      reactivate_run rid st = (st, RunNotFound) \<and> approve uid rid st = (st, RunNotFound)) \<and>
   (map_of (completed st) rid = Some r \<and> user_id r = None \<longrightarrow>
      reactivate_run rid st = (st, NoStoredUser)) \<and>
   (map_of (completed st) rid = Some r \<and> user_id r = Some u \<and> map_of (runs st) u \<noteq> None \<longrightarrow>
      reactivate_run rid st = (st, AlreadyActive)) \<and>
   (map_of (completed st) rid = Some r \<and> user_id r = Some u \<and> map_of (runs st) u = None \<longrightarrow>
      (let st' = fst (reactivate_run rid st)
       in snd (reactivate_run rid st) = Reactivated \<and>
          map_of (runs st') = (map_of (runs st))(u \<mapsto> r) \<and>
          map_of (completed st') = (map_of (completed st))(rid := None) \<and>
          player_queue st' = player_queue st \<and> history st' = history st)) \<and>
   (map_of (completed st) rid = Some r \<and> map_of (runs st) uid = None \<longrightarrow>
      (let st' = fst (approve uid rid st)
       in snd (approve uid rid st) = Reactivated \<and>
          map_of (runs st') = (map_of (runs st))(uid \<mapsto> r) \<and>
          map_of (completed st') = (map_of (completed st))(rid := None) \<and>
          player_queue st' = player_queue st \<and> history st' = history st))"
  by (simp add: reactivate_run_def approve_def Let_def AList.update_conv' AList.delete_conv')

theorem reactivation_outcomes_witness:
  "map_of (completed demo_state) ''zz'' = None \<and>
   reactivate_run ''zz'' demo_state = (demo_state, RunNotFound) \<and>
   approve 3 ''zz'' demo_state = (demo_state, RunNotFound) \<and>
   map_of (completed demo_state) ''c3''
     = Some ((demo_run ''s'' ''c3'')\<lparr>ended_at := Some 7, user_id := Some 3\<rparr>) \<and>
   map_of (runs demo_state) 3 = None \<and>
   snd (reactivate_run ''c3'' demo_state) = Reactivated \<and>
   map_of (runs (fst (reactivate_run ''c3'' demo_state))) 3
     = Some ((demo_run ''s'' ''c3'')\<lparr>ended_at := Some 7, user_id := Some 3\<rparr>) \<and>
   map_of (runs (fst (approve 3 ''c3'' demo_state))) 3
     = Some ((demo_run ''s'' ''c3'')\<lparr>ended_at := Some 7, user_id := Some 3\<rparr>) \<and>
   map_of (completed (fst (reactivate_run ''c3'' demo_state))) ''c3'' = None"
  using reactivation_outcomes [where st = demo_state and rid = "''zz''" and uid = 3]
    reactivation_outcomes [where st = demo_state and rid = "''c3''" and uid = 3 and u = 3
      and r = "(demo_run ''s'' ''c3'')\<lparr>ended_at := Some 7, user_id := Some 3\<rparr>"]
  by (simp add: demo_state_def Let_def)

text \<open>
  The Approve button does not look at the requesting player's active run: a player with
  an active run who gets a request approved has that run overwritten by the archived
  record, where the admin command refuses.
\<close>

lemma approve_overwrites_active_run:
  "approve 1 ''c3'' demo_state
     = (\<lparr>runs = [(1, (demo_run ''s'' ''c3'')\<lparr>ended_at := Some 7, user_id := Some 3\<rparr>),
                 (2, demo_run ''q'' ''b2'')],
         completed = [], history = [], player_queue = [(1, 10), (2, 20)]\<rparr>, Reactivated)"
  by (simp add: approve_def demo_state_def demo_run_def)

subsection \<open>Duplicate opponents\<close>

text \<open>
  C8, the code at the failing input. Players 1 and 2 have fresh runs; the admin forces
  the result "1 beats 2" twice. Both commands are accepted, and each run then lists the
  other player twice in \<open>opponents_played\<close>: \<open>force_result\<close> checks that both runs
  exist and that the two ids differ, and does not look at \<open>opponents_played\<close>, as the
  manual report and the pairing do.
\<close>

theorem force_result_duplicates_opponent:
  "snd (force_result all_delivered 8 1 2 demo_state) = ForceLogged \<and>
   snd (force_result all_delivered 9 1 2 (fst (force_result all_delivered 8 1 2 demo_state)))
     = ForceLogged \<and>
   map_option opponents_played
     (map_of (runs (fst (force_result all_delivered 9 1 2
                           (fst (force_result all_delivered 8 1 2 demo_state))))) 1)
     = Some [2, 2] \<and>
   map_option opponents_played
     (map_of (runs (fst (force_result all_delivered 9 1 2
                           (fst (force_result all_delivered 8 1 2 demo_state))))) 2)
     = Some [1, 1]"
  by (simp add: force_result_def demo_state_def demo_run_def MATCH_LIMIT_def all_delivered_def)

subsection \<open>Queued players and their runs\<close>

text \<open>
  C9, the code at the failing input. Player 1 has the active run \<open>a1\<close> and waits in the
  queue. \<open>delete_run\<close> on \<open>a1\<close> deletes the active run and leaves the queue as it was:
  player 1 is queued without a run, and the next pairing raises \<open>KeyError\<close> on
  that player.
\<close>

theorem delete_run_leaves_player_queued:
  "delete_run ''a1'' demo_state
     = (\<lparr>runs = [(2, demo_run ''q'' ''b2'')],
         completed = [(''c3'', (demo_run ''s'' ''c3'')\<lparr>ended_at := Some 7, user_id := Some 3\<rparr>)],
         history = [], player_queue = [(1, 10), (2, 20)]\<rparr>, RunDeleted) \<and>
   map_of (player_queue (fst (delete_run ''a1'' demo_state))) 1 = Some 10 \<and>
   map_of (runs (fst (delete_run ''a1'' demo_state))) 1 = None \<and>
   check_for_match all_delivered (fst (delete_run ''a1'' demo_state))
     = (fst (delete_run ''a1'' demo_state), Inl KeyError)"
  by (simp add: delete_run_def check_for_match_def demo_state_def demo_run_def)

text \<open>
  The sibling paths: \<open>archive_run\<close> and \<open>cancel_run\<close> take the player out of the queue
  with the run, and \<open>ENTER_QUEUE\<close> admits only a player with an active run.
\<close>

lemma archive_run_dequeues:
  "map_of (player_queue (fst (archive_run now uid st))) uid
     = (if map_of (runs st) uid = None then map_of (player_queue st) uid else None)"
  by (simp add: archive_run_def Let_def AList.delete_conv' split: option.split)

lemma cancel_run_dequeues:
  "map_of (runs st) uid \<noteq> None \<Longrightarrow>
     map_of (player_queue (fst (cancel_run uid st))) uid = None \<and>
     map_of (runs (fst (cancel_run uid st))) uid = None"
  by (auto simp: cancel_run_def AList.delete_conv')

lemma enter_queue_needs_run:
  "map_of (runs st) uid = None \<Longrightarrow> enter_queue dm now uid st = (st, Inr StartRunFirst)"
  by (simp add: enter_queue_def)

subsection \<open>The two loops of a recorded result\<close>

lemma log_results_both:
  assumes "map_of rs w = Some rw" and "map_of rs l = Some rl" and "w \<noteq> l"
  shows "log_results typ [(w, l, ''W''), (l, w, ''L'')] rs
           = Inr (AList.update l (logged rl w ''L'' typ) (AList.update w (logged rw l ''W'' typ) rs))"
  using assms by (simp add: AList.update_conv' logged_def)

lemma log_results_missing:
  assumes "map_of rs w = None \<or> map_of rs l = None"
  shows "log_results typ [(w, l, a), (l, w, b)] rs = Inl KeyError"
  using assms by (auto simp: AList.update_conv' split: option.split)

lemma archive_run_fst:
  "fst (archive_run now u st)
     = (case map_of (runs st) u of
          None \<Rightarrow> st
        | Some r \<Rightarrow>
            st\<lparr>runs := AList.delete u (runs st),
               completed := AList.update (run_id r) (r\<lparr>ended_at := Some now, user_id := Some u\<rparr>)
                              (completed st),
               player_queue := AList.delete u (player_queue st)\<rparr>)"
  by (simp add: archive_run_def Let_def split: option.split)

lemma archive_finished_pair:
  assumes "map_of rs w = Some a" and "map_of rs l = Some b"
  shows "archive_finished dm now rs [w, l] st
           = (if MATCH_LIMIT \<le> length (match_results a) then
                (if dm w then (fst (archive_run now w st), Some Forbidden)
                 else if MATCH_LIMIT \<le> length (match_results b)
                 then (fst (archive_run now l (fst (archive_run now w st))),
                       if dm l then Some Forbidden else None)
                 else (fst (archive_run now w st), None))
              else if MATCH_LIMIT \<le> length (match_results b)
              then (fst (archive_run now l st), if dm l then Some Forbidden else None)
              else (st, None))"
  using assms by (simp add: Let_def)

lemma recorded_state_holds_runs:
  assumes w: "map_of rs w = Some rw'" and l: "map_of rs l = Some rl'" and "w \<noteq> l"
  shows "holds_run (fst (archive_finished dm now rs [w, l] (st\<lparr>runs := rs\<rparr>))) now l rl'"
    and "run_id rw' \<noteq> run_id rl' \<Longrightarrow>
         holds_run (fst (archive_finished dm now rs [w, l] (st\<lparr>runs := rs\<rparr>))) now w rw'"
  using assms unfolding archive_finished_pair [OF w l]
  by (simp_all add: archive_run_fst holds_run_def AList.update_conv' AList.delete_conv'
        del: archive_finished.simps)

text \<open>From here on the two loops are unfolded only where a proof asks for it.\<close>

declare log_results.simps [simp del] archive_finished.simps [simp del]

subsection \<open>Admin dispute resolution\<close>

text \<open>
  C10. \<open>resolve\<close> with a winner or a loser who has no active run answers with the
  error and leaves the whole state as it was. With both runs active (and two different
  players) it does not answer with that error, and each of the two players then holds
  the run with exactly the new \<open>admin_dispute\<close> entry appended, still active or
  archived by the same call; for the winner this is stated when the two run ids differ,
  since the archive is keyed by run id.
\<close>

theorem resolve_needs_both_runs:
  "(map_of (runs st) winner = None \<or> map_of (runs st) loser = None \<longrightarrow>
      resolve dm now winner loser st = (st, Inr NoActiveRun)) \<and>
   (map_of (runs st) winner = Some rw \<and> map_of (runs st) loser = Some rl \<and> winner \<noteq> loser \<longrightarrow>
      (snd (resolve dm now winner loser st) = Inr Resolved \<or>
       snd (resolve dm now winner loser st) = Inl Forbidden) \<and>
      holds_run (fst (resolve dm now winner loser st)) now loser
        (logged rl winner ''L'' ''admin_dispute'') \<and>
      (run_id rw \<noteq> run_id rl \<longrightarrow>
         holds_run (fst (resolve dm now winner loser st)) now winner
           (logged rw loser ''W'' ''admin_dispute'')))"
proof (intro conjI impI)
  assume "map_of (runs st) winner = None \<or> map_of (runs st) loser = None"
  then show "resolve dm now winner loser st = (st, Inr NoActiveRun)"
    by (simp add: resolve_def)
next
  assume both: "map_of (runs st) winner = Some rw \<and> map_of (runs st) loser = Some rl \<and> winner \<noteq> loser"
  define rs where "rs = AList.update loser (logged rl winner ''L'' ''admin_dispute'')
                          (AList.update winner (logged rw loser ''W'' ''admin_dispute'') (runs st))"
  have lg: "log_results ''admin_dispute'' [(winner, loser, ''W''), (loser, winner, ''L'')] (runs st)
              = Inr rs"
    using log_results_both [of "runs st" winner rw loser rl] both unfolding rs_def by blast
  have w: "map_of rs winner = Some (logged rw loser ''W'' ''admin_dispute'')"
    and l: "map_of rs loser = Some (logged rl winner ''L'' ''admin_dispute'')"
    using both by (simp_all add: rs_def AList.update_conv')
  obtain st' e where af: "archive_finished dm now rs [winner, loser] (st\<lparr>runs := rs\<rparr>) = (st', e)"
    by (cases "archive_finished dm now rs [winner, loser] (st\<lparr>runs := rs\<rparr>)")
  have e: "e = None \<or> e = Some Forbidden"
    using af unfolding archive_finished_pair [OF w l] by (auto split: if_splits)
  have res: "resolve dm now winner loser st
               = (st', case e of None \<Rightarrow> Inr Resolved | Some x \<Rightarrow> Inl x)"
    using both by (simp add: resolve_def lg af split: option.split
        del: log_results.simps archive_finished.simps)
  show "snd (resolve dm now winner loser st) = Inr Resolved \<or>
        snd (resolve dm now winner loser st) = Inl Forbidden"
    using e by (auto simp: res)
  have st': "fst (resolve dm now winner loser st)
               = fst (archive_finished dm now rs [winner, loser] (st\<lparr>runs := rs\<rparr>))"
    by (simp add: res af)
  show "holds_run (fst (resolve dm now winner loser st)) now loser
          (logged rl winner ''L'' ''admin_dispute'')"
    unfolding st' using recorded_state_holds_runs(1) [OF w l] both by blast
  show "holds_run (fst (resolve dm now winner loser st)) now winner
          (logged rw loser ''W'' ''admin_dispute'')" if "run_id rw \<noteq> run_id rl"
    unfolding st' using recorded_state_holds_runs(2) [OF w l] both that
    by (simp add: logged_def)
qed

theorem resolve_needs_both_runs_witness:
  "map_of (runs demo_state) 3 = None \<and>
   resolve all_delivered 30 3 1 demo_state = (demo_state, Inr NoActiveRun) \<and>
   resolve all_delivered 30 1 3 demo_state = (demo_state, Inr NoActiveRun) \<and>
   map_of (runs demo_state2) 1
     = Some ((demo_run ''p'' ''a1'')
              \<lparr>opponents_played := [5, 6],
                match_results := [\<lparr>opp = 5, res = ''W'', type = ''queue''\<rparr>,
                                  \<lparr>opp = 6, res = ''W'', type = ''queue''\<rparr>]\<rparr>) \<and>
   map_of (runs demo_state2) 2 = Some (demo_run ''q'' ''b2'') \<and>
   snd (resolve all_delivered 30 1 2 demo_state2) = Inr Resolved \<and>
   holds_run (fst (resolve all_delivered 30 1 2 demo_state2)) 30 2
     (logged (demo_run ''q'' ''b2'') 1 ''L'' ''admin_dispute'') \<and>
   holds_run (fst (resolve all_delivered 30 1 2 demo_state2)) 30 1
     (logged ((demo_run ''p'' ''a1'')
              \<lparr>opponents_played := [5, 6],
                match_results := [\<lparr>opp = 5, res = ''W'', type = ''queue''\<rparr>,
                                  \<lparr>opp = 6, res = ''W'', type = ''queue''\<rparr>]\<rparr>)
        2 ''W'' ''admin_dispute'')"
  using resolve_needs_both_runs [where st = demo_state and winner = 3 and loser = 1
      and dm = all_delivered and now = 30]
    resolve_needs_both_runs [where st = demo_state and winner = 1 and loser = 3
      and dm = all_delivered and now = 30]
    resolve_needs_both_runs [where st = demo_state2 and winner = 1 and loser = 2
      and dm = all_delivered and now = 30 and rl = "demo_run ''q'' ''b2''"
      and rw = "(demo_run ''p'' ''a1'')
              \<lparr>opponents_played := [5, 6],
                match_results := [\<lparr>opp = 5, res = ''W'', type = ''queue''\<rparr>,
                                  \<lparr>opp = 6, res = ''W'', type = ''queue''\<rparr>]\<rparr>"]
  by (simp add: demo_state_def demo_state2_def demo_run_def resolve_def MATCH_LIMIT_def
        all_delivered_def log_results.simps archive_finished.simps archive_run_def)

subsection \<open>The three recording operations end in the same way\<close>

lemma saved_lookup:
  assumes "w \<noteq> l"
  shows "map_of (runs (saved typ w l rw rl st)) w = Some (logged rw l ''W'' typ)"
    and "map_of (runs (saved typ w l rw rl st)) l = Some (logged rl w ''L'' typ)"
  using assms by (simp_all add: saved_def AList.update_conv')

lemma saved_runs_update [simp]:
  "st\<lparr>runs := runs (saved typ w l rw rl st)\<rparr> = saved typ w l rw rl st"
  by (simp add: saved_def)

lemma archive_finished_no_KeyError:
  assumes "w \<noteq> l"
  shows "snd (archive_finished dm now (runs (saved typ w l rw rl st)) [w, l] s) \<noteq> Some KeyError"
  unfolding archive_finished_pair [OF saved_lookup [OF assms]]
  by simp

lemma process_results_both:
  assumes "map_of (runs st) (winner_id v) = Some rw" and "map_of (runs st) (loser_id v) = Some rl"
    and "winner_id v \<noteq> loser_id v"
  shows "process_results dm now a v st
           = (case archive_finished dm now
                     (runs (saved (match_type v) (winner_id v) (loser_id v) rw rl st))
                     [winner_id v, loser_id v]
                     (saved (match_type v) (winner_id v) (loser_id v) rw rl st) of
                (st', Some e) \<Rightarrow> (v\<lparr>confirmed := True\<rparr>, st', Some e)
              | (st', None) \<Rightarrow> (v\<lparr>confirmed := True, stopped := True\<rparr>, st', None))"
  using log_results_both [OF assms, of "match_type v"]
  by (simp add: process_results_def Let_def saved_def)

lemma process_results_missing:
  assumes "map_of (runs st) (winner_id v) = None \<or> map_of (runs st) (loser_id v) = None"
  shows "process_results dm now a v st = (v\<lparr>confirmed := True\<rparr>, st, Some KeyError)"
  using log_results_missing [OF assms, of "match_type v" "''W''" "''L''"]
  by (simp add: process_results_def Let_def)

lemma process_results_confirmed:
  "confirmed (fst (process_results dm now a v st))"
  by (simp add: process_results_def Let_def split: sum.split prod.split option.split)

lemma process_results_state:
  assumes "map_of (runs st) (winner_id v) = Some rw" and "map_of (runs st) (loser_id v) = Some rl"
    and "winner_id v \<noteq> loser_id v"
  shows "fst (snd (process_results dm now a v st))
           = fst (archive_finished dm now
                    (runs (saved (match_type v) (winner_id v) (loser_id v) rw rl st))
                    [winner_id v, loser_id v]
                    (saved (match_type v) (winner_id v) (loser_id v) rw rl st))"
  by (simp add: process_results_both [OF assms] split: prod.split option.split)

lemma resolve_state:
  assumes "map_of (runs st) w = Some rw" and "map_of (runs st) l = Some rl" and "w \<noteq> l"
  shows "fst (resolve dm now w l st)
           = fst (archive_finished dm now (runs (saved ''admin_dispute'' w l rw rl st)) [w, l]
                    (saved ''admin_dispute'' w l rw rl st))"
  using log_results_both [OF assms, of "''admin_dispute''"] assms
  by (simp add: resolve_def saved_def split: prod.split option.split)

lemma force_result_state:
  assumes "map_of (runs st) w = Some rw" and "map_of (runs st) l = Some rl" and "w \<noteq> l"
  shows "fst (force_result dm now w l st)
           = fst (archive_finished dm now (runs (saved ''admin_forced'' w l rw rl st)) [w, l]
                    (saved ''admin_forced'' w l rw rl st))"
  using log_results_both [OF assms, of "''admin_forced''"] assms
  by (simp add: force_result_def saved_def split: prod.split option.split)

lemma saved_holds_runs:
  assumes "w \<noteq> l"
  shows "holds_run (fst (archive_finished dm now (runs (saved typ w l rw rl st)) [w, l]
                           (saved typ w l rw rl st))) now l (logged rl w ''L'' typ)"
    and "run_id rw \<noteq> run_id rl \<Longrightarrow>
         holds_run (fst (archive_finished dm now (runs (saved typ w l rw rl st)) [w, l]
                           (saved typ w l rw rl st))) now w (logged rw l ''W'' typ)"
proof -
  note lk = saved_lookup [OF assms, of "typ" rw rl st]
  note hr = recorded_state_holds_runs [OF lk assms, of dm now "saved typ w l rw rl st"]
  show "holds_run (fst (archive_finished dm now (runs (saved typ w l rw rl st)) [w, l]
                          (saved typ w l rw rl st))) now l (logged rl w ''L'' typ)"
    using hr(1) by simp
  show "holds_run (fst (archive_finished dm now (runs (saved typ w l rw rl st)) [w, l]
                          (saved typ w l rw rl st))) now w (logged rw l ''W'' typ)"
    if "run_id rw \<noteq> run_id rl"
    using hr(2) that by (simp add: logged_def)
qed

subsection \<open>The confirmation timeout\<close>

text \<open>
  C5, counterexample. Player 1 reported a queue win over player 2, who lets the 60
  seconds pass. The entries written by the timeout carry the type \<open>queue\<close>, and the
  files end up exactly as after a manual confirmation: nothing in the record marks the
  result as coming from a timeout.
\<close>

theorem timeout_entry_is_not_marked:
  "map_option match_results
     (map_of (runs (fst (snd (on_timeout all_delivered 60 (ResultView 1 2 ''queue'') demo_state)))) 1)
     = Some [\<lparr>opp = 2, res = ''W'', type = ''queue''\<rparr>] \<and>
   map_option match_results
     (map_of (runs (fst (snd (on_timeout all_delivered 60 (ResultView 1 2 ''queue'') demo_state)))) 2)
     = Some [\<lparr>opp = 1, res = ''L'', type = ''queue''\<rparr>] \<and>
   fst (snd (on_timeout all_delivered 60 (ResultView 1 2 ''queue'') demo_state))
     = fst (snd (confirm all_delivered 60 2 (ResultView 1 2 ''queue'') demo_state))"
  by (simp add: on_timeout_def confirm_def process_results_def ResultView_def demo_state_def
        demo_run_def all_delivered_def MATCH_LIMIT_def log_results.simps archive_finished.simps)

text \<open>
  C5, as amended. When the timeout fires on a view that is not marked confirmed and the
  reported winner and loser are two players who both still have an active run, the
  originally reported result is recorded: the winner then holds the run with exactly
  one \<open>W\<close> entry against the loser appended, the loser the run with exactly one \<open>L\<close>
  entry against the winner appended (still active, or archived by the same call; for the
  winner this is stated when the two run ids differ), and the view is marked confirmed.
  The entries carry the match type of the view, and the files are the ones a manual
  confirmation by the loser leaves. When one of the two runs is gone the timeout raises
  \<open>KeyError\<close> and records nothing.
\<close>

theorem timeout_records_reported_result:
  assumes "\<not> confirmed v"
  shows "(map_of (runs st) (winner_id v) = Some rw \<and> map_of (runs st) (loser_id v) = Some rl \<and>
          winner_id v \<noteq> loser_id v \<longrightarrow>
            confirmed (fst (on_timeout dm now v st)) \<and>
            snd (snd (on_timeout dm now v st)) \<noteq> Some KeyError \<and>
            holds_run (fst (snd (on_timeout dm now v st))) now (loser_id v)
              (logged rl (winner_id v) ''L'' (match_type v)) \<and>
            (run_id rw \<noteq> run_id rl \<longrightarrow>
               holds_run (fst (snd (on_timeout dm now v st))) now (winner_id v)
                 (logged rw (loser_id v) ''W'' (match_type v))) \<and>
            fst (snd (on_timeout dm now v st)) = fst (snd (confirm dm now (loser_id v) v st))) \<and>
         (map_of (runs st) (winner_id v) = None \<or> map_of (runs st) (loser_id v) = None \<longrightarrow>
            on_timeout dm now v st = (v\<lparr>confirmed := True\<rparr>, st, Some KeyError))"
proof (intro conjI impI)
  assume "map_of (runs st) (winner_id v) = None \<or> map_of (runs st) (loser_id v) = None"
  then show "on_timeout dm now v st = (v\<lparr>confirmed := True\<rparr>, st, Some KeyError)"
    using assms by (simp add: on_timeout_def process_results_missing)
next
  assume both: "map_of (runs st) (winner_id v) = Some rw \<and> map_of (runs st) (loser_id v) = Some rl \<and>
          winner_id v \<noteq> loser_id v"
  then have w: "map_of (runs st) (winner_id v) = Some rw"
    and l: "map_of (runs st) (loser_id v) = Some rl" and ne: "winner_id v \<noteq> loser_id v"
    by simp_all
  have ot: "on_timeout dm now v st = process_results dm now True v st"
    using assms by (simp add: on_timeout_def)
  note st = process_results_state [OF w l ne]
  show "confirmed (fst (on_timeout dm now v st))"
    by (simp add: ot process_results_confirmed)
  show "snd (snd (on_timeout dm now v st)) \<noteq> Some KeyError"
    using archive_finished_no_KeyError [OF ne, of dm now "match_type v" rw rl st
        "saved (match_type v) (winner_id v) (loser_id v) rw rl st"]
    by (auto simp: ot process_results_both [OF w l ne] split: prod.split option.split)
  show "holds_run (fst (snd (on_timeout dm now v st))) now (loser_id v)
          (logged rl (winner_id v) ''L'' (match_type v))"
    unfolding ot st by (rule saved_holds_runs(1) [OF ne])
  show "holds_run (fst (snd (on_timeout dm now v st))) now (winner_id v)
          (logged rw (loser_id v) ''W'' (match_type v))" if "run_id rw \<noteq> run_id rl"
    unfolding ot st by (rule saved_holds_runs(2) [OF ne that])
  show "fst (snd (on_timeout dm now v st)) = fst (snd (confirm dm now (loser_id v) v st))"
    unfolding ot st
    by (simp add: confirm_def process_results_both [OF w l ne] split: prod.split option.split)
qed

theorem timeout_records_reported_result_witness:
  "\<not> confirmed (ResultView 1 2 ''local'') \<and>
   map_of (runs demo_state) 1 = Some (demo_run ''p'' ''a1'') \<and>
   map_of (runs demo_state) 2 = Some (demo_run ''q'' ''b2'') \<and>
   confirmed (fst (on_timeout all_delivered 60 (ResultView 1 2 ''local'') demo_state)) \<and>
   holds_run (fst (snd (on_timeout all_delivered 60 (ResultView 1 2 ''local'') demo_state))) 60 2
     (logged (demo_run ''q'' ''b2'') 1 ''L'' ''local'') \<and>
   holds_run (fst (snd (on_timeout all_delivered 60 (ResultView 1 2 ''local'') demo_state))) 60 1
     (logged (demo_run ''p'' ''a1'') 2 ''W'' ''local'') \<and>
   map_of (runs demo_state) 3 = None \<and>
   on_timeout all_delivered 60 (ResultView 3 2 ''local'') demo_state
     = ((ResultView 3 2 ''local'')\<lparr>confirmed := True\<rparr>, demo_state, Some KeyError)"
  using timeout_records_reported_result [where v = "ResultView 1 2 ''local''" and st = demo_state
      and dm = all_delivered and now = 60 and rw = "demo_run ''p'' ''a1''"
      and rl = "demo_run ''q'' ''b2''"]
    timeout_records_reported_result [where v = "ResultView 3 2 ''local''" and st = demo_state
      and dm = all_delivered and now = 60]
  by (simp add: ResultView_def demo_state_def demo_run_def on_timeout_def confirm_def
        process_results_def holds_run_def logged_def all_delivered_def MATCH_LIMIT_def
        log_results.simps archive_finished.simps)

subsection \<open>A resolved confirmation request\<close>

text \<open>
  C4, the code at the failing input. Player 1 (two matches played) reported a queue win
  over player 2. Player 2 confirms: both entries are saved, player 1's run reaches three
  matches and is archived, and the completion notice to player 1, sent outside any
  \<open>try\<close>, is refused, so the handler ends before \<open>self.stop()\<close>: the view is
  marked confirmed and is not stopped. The admin reactivates the archived run. Player 2
  clicks Confirm on the same view again: \<open>confirm\<close> does not read the confirmed mark
  that \<open>on_timeout\<close> reads, the click is not rejected, and player 2's run carries the
  loss against player 1 twice.
\<close>

theorem second_confirm_records_again:
  "snd (snd first_confirm) = Inl Forbidden \<and>
   confirmed (fst first_confirm) \<and> \<not> stopped (fst first_confirm) \<and>
   map_option match_results (map_of (runs (fst (snd first_confirm))) 2)
     = Some [\<lparr>opp = 1, res = ''L'', type = ''queue''\<rparr>] \<and>
   snd (reactivate_run ''a1'' (fst (snd first_confirm))) = Reactivated \<and>
   snd (snd second_confirm) = Inr ResultLogged \<and>
   map_option match_results (map_of (runs (fst (snd second_confirm))) 2)
     = Some [\<lparr>opp = 1, res = ''L'', type = ''queue''\<rparr>, \<lparr>opp = 1, res = ''L'', type = ''queue''\<rparr>] \<and>
   map_option opponents_played (map_of (runs (fst (snd second_confirm))) 2) = Some [1, 1]"
  by (simp add: second_confirm_def first_confirm_def confirm_def process_results_def
        reactivate_run_def archive_run_def ResultView_def demo_state2_def demo_run_def
        all_delivered_def player1_refuses_def MATCH_LIMIT_def Let_def
        log_results.simps archive_finished.simps)

text \<open>
  What the view does guarantee. A timeout on a view that is marked confirmed changes
  neither the view nor the state. Every confirmation by the reported loser marks the
  view confirmed, and so does every dispute by the reported loser; hence a timeout that
  fires after either of them is a no-op, whatever the state has become. A dispute by the
  loser stops the view and changes no state. A confirmation by the loser that runs to
  its end stops the view. A click by anyone but the reported loser is answered with a
  refusal and changes nothing.
\<close>

lemma resolved_view_timeout_is_noop:
  "(confirmed v \<longrightarrow> on_timeout dm now v st = (v, st, None)) \<and>
   on_timeout dm' now' (fst (confirm dm now (loser_id v) v st)) st'
     = (fst (confirm dm now (loser_id v) v st), st', None) \<and>
   on_timeout dm' now' (fst (dispute dm (loser_id v) v st)) st'
     = (fst (dispute dm (loser_id v) v st), st', None) \<and>
   fst (dispute dm (loser_id v) v st) = v\<lparr>confirmed := True, stopped := True\<rparr> \<and>
   fst (snd (dispute dm (loser_id v) v st)) = st \<and>
   (snd (snd (confirm dm now (loser_id v) v st)) = Inr ResultLogged \<longrightarrow>
      stopped (fst (confirm dm now (loser_id v) v st))) \<and>
   (actor \<noteq> loser_id v \<longrightarrow>
      confirm dm now actor v st = (v, st, Inr OnlyLoser) \<and>
      dispute dm actor v st = (v, st, Inr OnlyLoser))"
proof -
  have c: "confirmed (fst (confirm dm now (loser_id v) v st))"
    using process_results_confirmed [of dm now False v st]
    by (cases "process_results dm now False v st") (auto simp: confirm_def split: option.split)
  have s: "stopped (fst (confirm dm now (loser_id v) v st))"
    if "snd (snd (confirm dm now (loser_id v) v st)) = Inr ResultLogged"
    using that
    by (auto simp: confirm_def process_results_def Let_def
          split: prod.splits option.splits sum.splits)
  show ?thesis
    using c s by (simp add: on_timeout_def dispute_def confirm_def Let_def)
qed

lemma resolved_view_timeout_is_noop_example:
  "confirmed (fst first_confirm) \<and>
   on_timeout all_delivered 60 (fst first_confirm) demo_state
     = (fst first_confirm, demo_state, None) \<and>
   on_timeout all_delivered 60 (fst (confirm all_delivered 30 2 (ResultView 1 2 ''queue'') demo_state))
       demo_state2
     = (fst (confirm all_delivered 30 2 (ResultView 1 2 ''queue'') demo_state), demo_state2, None) \<and>
   snd (snd (confirm all_delivered 30 2 (ResultView 1 2 ''queue'') demo_state)) = Inr ResultLogged \<and>
   stopped (fst (confirm all_delivered 30 2 (ResultView 1 2 ''queue'') demo_state)) \<and>
   (1::int) \<noteq> loser_id (ResultView 1 2 ''queue'') \<and>
   confirm all_delivered 30 1 (ResultView 1 2 ''queue'') demo_state
     = (ResultView 1 2 ''queue'', demo_state, Inr OnlyLoser)"
  using resolved_view_timeout_is_noop [where v = "fst first_confirm" and st = demo_state
      and dm = all_delivered and now = 60]
    resolved_view_timeout_is_noop [where v = "ResultView 1 2 ''queue''" and st = demo_state
      and dm = all_delivered and now = 30 and dm' = all_delivered and now' = 60
      and st' = demo_state2 and actor = 1]
  by (simp add: first_confirm_def confirm_def process_results_def
        archive_run_def ResultView_def demo_state_def demo_state2_def demo_run_def
        all_delivered_def player1_refuses_def MATCH_LIMIT_def Let_def
        log_results.simps archive_finished.simps)

subsection \<open>The match limit across a recorded result\<close>

lemma list_all_update:
  "list_all P al \<Longrightarrow> P (k, v) \<Longrightarrow> list_all P (AList.update k v al)"
  by (induction al) auto

lemma list_all_delete:
  "list_all P al \<Longrightarrow> list_all P (AList.delete k al)"
  by (induction al) auto

lemma below_limit_lookup:
  assumes "runs_below_limit st" and "map_of (runs st) u = Some r"
  shows "length (match_results r) < MATCH_LIMIT"
  using assms map_of_SomeD [of "runs st" u r]
  by (auto simp: runs_below_limit_def list_all_iff)

lemma length_logged [simp]:
  "length (match_results (logged r op wl typ)) = Suc (length (match_results r))"
  by (simp add: logged_def)

lemma run_id_logged [simp]: "run_id (logged r op wl typ) = run_id r"
  by (simp add: logged_def)

lemma recorded_within_limit:
  assumes below: "runs_below_limit st" and arch: "within_limit st"
    and w: "map_of (runs st) w = Some rw" and l: "map_of (runs st) l = Some rl" and ne: "w \<noteq> l"
  shows "within_limit (fst (archive_finished dm now (runs (saved typ w l rw rl st)) [w, l]
                              (saved typ w l rw rl st)))"
proof -
  have lw: "length (match_results rw) < MATCH_LIMIT" and ll: "length (match_results rl) < MATCH_LIMIT"
    using below_limit_lookup [OF below] w l by blast+
  have rs: "list_all (\<lambda>(u, r). length (match_results r) \<le> MATCH_LIMIT) (runs st)"
    and cs: "list_all (\<lambda>(k, r). length (match_results r) \<le> MATCH_LIMIT) (completed st)"
    using arch by (simp_all add: within_limit_def)
  show ?thesis
    unfolding archive_finished_pair [OF saved_lookup [OF ne]]
    using lw ll rs cs ne
    by (simp add: archive_run_fst saved_def within_limit_def AList.update_conv'
          AList.delete_conv' list_all_update list_all_delete)
qed

lemma recorded_below_limit:
  assumes below: "runs_below_limit st"
    and w: "map_of (runs st) w = Some rw" and l: "map_of (runs st) l = Some rl" and ne: "w \<noteq> l"
    and dm: "\<not> dm w"
  shows "runs_below_limit (fst (archive_finished dm now (runs (saved typ w l rw rl st)) [w, l]
                                  (saved typ w l rw rl st)))"
proof -
  have rs: "list_all (\<lambda>(u, r). length (match_results r) < MATCH_LIMIT) (runs st)"
    using below by (simp add: runs_below_limit_def)
  have ne': "l \<noteq> w" using ne by simp
  show ?thesis
    unfolding archive_finished_pair [OF saved_lookup [OF ne]]
    using rs ne dm
    by (simp add: archive_run_fst saved_def runs_below_limit_def AList.update_conv'
          AList.delete_conv' list_all_update list_all_delete
          AList.delete_update [OF ne] AList.delete_update [OF ne'] AList.delete_update_same
          not_le)
qed

lemma recorded_archived:
  assumes below: "runs_below_limit st"
    and w: "map_of (runs st) w = Some rw" and l: "map_of (runs st) l = Some rl" and ne: "w \<noteq> l"
    and dm: "\<not> dm w"
  shows "Suc (length (match_results rw)) = MATCH_LIMIT \<Longrightarrow>
         archived_at (fst (archive_finished dm now (runs (saved typ w l rw rl st)) [w, l]
                             (saved typ w l rw rl st))) now w (run_id rw)"
    and "Suc (length (match_results rl)) = MATCH_LIMIT \<Longrightarrow>
         archived_at (fst (archive_finished dm now (runs (saved typ w l rw rl st)) [w, l]
                             (saved typ w l rw rl st))) now l (run_id rl)"
proof -
  have lw: "length (match_results rw) < MATCH_LIMIT" and ll: "length (match_results rl) < MATCH_LIMIT"
    using below_limit_lookup [OF below] w l by blast+
  show "archived_at (fst (archive_finished dm now (runs (saved typ w l rw rl st)) [w, l]
                             (saved typ w l rw rl st))) now w (run_id rw)"
    if "Suc (length (match_results rw)) = MATCH_LIMIT"
    unfolding archive_finished_pair [OF saved_lookup [OF ne]]
    using that ll ne dm
    by (simp add: archive_run_fst saved_def archived_at_def AList.update_conv'
          AList.delete_conv')
  show "archived_at (fst (archive_finished dm now (runs (saved typ w l rw rl st)) [w, l]
                             (saved typ w l rw rl st))) now l (run_id rl)"
    if "Suc (length (match_results rl)) = MATCH_LIMIT"
    unfolding archive_finished_pair [OF saved_lookup [OF ne]]
    using that lw ne dm
    by (simp add: archive_run_fst saved_def archived_at_def AList.update_conv'
          AList.delete_conv')
qed

lemma limit_kept_recorded:
  assumes "runs_below_limit st" and "within_limit st"
    and "map_of (runs st) w = Some rw" and "map_of (runs st) l = Some rl" and "w \<noteq> l"
  shows "limit_kept dm now w l st
           (fst (archive_finished dm now (runs (saved typ w l rw rl st)) [w, l]
                   (saved typ w l rw rl st)))"
  using recorded_within_limit [OF assms, of dm now "typ"]
    recorded_below_limit [OF assms(1,3,4,5), of dm now "typ"]
    recorded_archived [OF assms(1,3,4,5), of dm now "typ"] assms(3,4)
  by (simp add: limit_kept_def)

lemma limit_kept_unchanged:
  assumes "runs_below_limit st" and "within_limit st"
    and "map_of (runs st) w = None \<or> map_of (runs st) l = None"
  shows "limit_kept dm now w l st st"
  using assms by (auto simp: limit_kept_def split: option.split)

text \<open>
  C1, counterexample. Player 1 has played two matches. The admin forces a third result:
  the run is archived with three matches. The admin reactivates it and forces one more
  result: the run is archived again, now with four matches, more than \<open>MATCH_LIMIT\<close>.
\<close>

theorem reactivated_run_exceeds_limit:
  "runs_below_limit demo_state2 \<and> within_limit demo_state2 \<and>
   snd (force_result all_delivered 30 1 2 demo_state2) = ForceLogged \<and>
   snd full_run_reactivated = Reactivated \<and>
   snd fourth_result = ForceLogged \<and>
   map_option match_results (map_of (completed (fst fourth_result)) ''a1'')
     = Some [\<lparr>opp = 5, res = ''W'', type = ''queue''\<rparr>, \<lparr>opp = 6, res = ''W'', type = ''queue''\<rparr>,
             \<lparr>opp = 2, res = ''W'', type = ''admin_forced''\<rparr>,
             \<lparr>opp = 2, res = ''W'', type = ''admin_forced''\<rparr>] \<and>
   \<not> within_limit (fst fourth_result)"
  by (simp add: fourth_result_def full_run_reactivated_def force_result_def reactivate_run_def
        archive_run_def demo_state2_def demo_run_def all_delivered_def MATCH_LIMIT_def Let_def
        runs_below_limit_def within_limit_def log_results.simps archive_finished.simps)

text \<open>
  C1, as amended. Let every active run hold fewer than \<open>MATCH_LIMIT\<close> matches and no
  archived run more than \<open>MATCH_LIMIT\<close>, and let winner and loser be two players. After
  a confirmation by the loser, after the timeout of an unconfirmed view, after the
  admin's dispute resolution and after \<open>force_result\<close>, no run, active or archived, holds
  more than \<open>MATCH_LIMIT\<close> matches. When the completion notice to the winner is not
  refused, every active run again holds fewer than \<open>MATCH_LIMIT\<close> matches, and each of
  the two players whose run reached \<open>MATCH_LIMIT\<close> by the recorded result has been
  archived by that same call: the player has no active run, is not in the queue, and the
  archive holds a record of \<open>MATCH_LIMIT\<close> matches under the run id, stamped by this call.
\<close>

theorem match_limit_kept:
  assumes "runs_below_limit st" and "within_limit st" and "winner_id v \<noteq> loser_id v"
    and "w \<noteq> l"
  shows "limit_kept dm now (winner_id v) (loser_id v) st
           (fst (snd (confirm dm now (loser_id v) v st))) \<and>
         (\<not> confirmed v \<longrightarrow>
            limit_kept dm now (winner_id v) (loser_id v) st (fst (snd (on_timeout dm now v st)))) \<and>
         limit_kept dm now w l st (fst (resolve dm now w l st)) \<and>
         limit_kept dm now w l st (fst (force_result dm now w l st))"
proof -
  have pr: "limit_kept dm now (winner_id v) (loser_id v) st
              (fst (snd (process_results dm now a v st)))" for a
  proof (cases "map_of (runs st) (winner_id v) = None \<or> map_of (runs st) (loser_id v) = None")
    case True
    then show ?thesis
      using limit_kept_unchanged [OF assms(1,2) True]
      by (simp add: process_results_missing)
  next
    case False
    then obtain rw rl where "map_of (runs st) (winner_id v) = Some rw"
      and "map_of (runs st) (loser_id v) = Some rl" by auto
    then show ?thesis
      using limit_kept_recorded [OF assms(1,2) _ _ assms(3)]
      by (simp add: process_results_state [OF _ _ assms(3)])
  qed
  have c: "fst (snd (confirm dm now (loser_id v) v st))
             = fst (snd (process_results dm now False v st))"
    by (cases "process_results dm now False v st") (auto simp: confirm_def split: option.split)
  have adm: "limit_kept dm now w l st (fst (resolve dm now w l st)) \<and>
             limit_kept dm now w l st (fst (force_result dm now w l st))"
  proof (cases "map_of (runs st) w = None \<or> map_of (runs st) l = None")
    case True
    then show ?thesis
      using limit_kept_unchanged [OF assms(1,2) True]
      by (simp add: resolve_def force_result_def)
  next
    case False
    then obtain rw rl where "map_of (runs st) w = Some rw" and "map_of (runs st) l = Some rl"
      by auto
    then show ?thesis
      using limit_kept_recorded [OF assms(1,2) _ _ assms(4)]
      by (simp add: resolve_state [OF _ _ assms(4)] force_result_state [OF _ _ assms(4)])
  qed
  show ?thesis
    using pr [of False] pr [of True] adm by (simp add: c on_timeout_def)
qed

theorem match_limit_kept_witness:
  "runs_below_limit demo_state2 \<and> within_limit demo_state2 \<and>
   winner_id (ResultView 1 2 ''queue'') \<noteq> loser_id (ResultView 1 2 ''queue'') \<and>
   \<not> confirmed (ResultView 1 2 ''queue'') \<and>
   limit_kept all_delivered 30 1 2 demo_state2
     (fst (snd (confirm all_delivered 30 2 (ResultView 1 2 ''queue'') demo_state2))) \<and>
   limit_kept all_delivered 30 1 2 demo_state2
     (fst (snd (on_timeout all_delivered 30 (ResultView 1 2 ''queue'') demo_state2))) \<and>
   limit_kept all_delivered 30 1 2 demo_state2 (fst (resolve all_delivered 30 1 2 demo_state2)) \<and>
   limit_kept all_delivered 30 1 2 demo_state2 (fst (force_result all_delivered 30 1 2 demo_state2)) \<and>
   archived_at (fst (force_result all_delivered 30 1 2 demo_state2)) 30 1 ''a1'' \<and>
   map_of (runs (fst (force_result all_delivered 30 1 2 demo_state2))) 2
     = Some (logged (demo_run ''q'' ''b2'') 1 ''L'' ''admin_forced'')"
proof -
  have h: "runs_below_limit demo_state2" "within_limit demo_state2"
    by (simp_all add: runs_below_limit_def within_limit_def demo_state2_def demo_run_def
          MATCH_LIMIT_def)
  have n: "winner_id (ResultView 1 2 ''queue'') \<noteq> loser_id (ResultView 1 2 ''queue'')"
    and u: "\<not> confirmed (ResultView 1 2 ''queue'')"
    by (simp_all add: ResultView_def)
  have d: "(1::int) \<noteq> 2" by simp
  note t = match_limit_kept [OF h n d, where dm = all_delivered and now = 30]
  have ids: "winner_id (ResultView 1 2 ''queue'') = 1" "loser_id (ResultView 1 2 ''queue'') = 2"
    by (simp_all add: ResultView_def)
  have a: "archived_at (fst (force_result all_delivered 30 1 2 demo_state2)) 30 1 ''a1'' \<and>
           map_of (runs (fst (force_result all_delivered 30 1 2 demo_state2))) 2
             = Some (logged (demo_run ''q'' ''b2'') 1 ''L'' ''admin_forced'')"
    by (simp add: force_result_def archive_run_def archived_at_def logged_def demo_state2_def
          demo_run_def all_delivered_def MATCH_LIMIT_def Let_def
          log_results.simps archive_finished.simps)
  show ?thesis
    using h n u t a unfolding ids by blast
qed

subsection \<open>Pairing\<close>










subsection \<open>The daily limit\<close>

lemma count_fold_filter:
  "fold (\<lambda>ts count. if P ts then count + 1 else count) xs (n::nat) = n + length (filter P xs)"
  by (induction xs arbitrary: n) simp_all

lemma instant_astimezone [simp]: "instant (astimezone tz d) = instant d"
  by (simp add: astimezone_def instant_def)

lemma instant_localize_utc [simp]: "instant (localize_utc w) = w"
  by (simp add: localize_utc_def instant_def)

lemma instant_run_time:
  "instant (case ts of Naive w \<Rightarrow> astimezone tz (localize_utc w) | Aware d \<Rightarrow> d) = utc_instant ts"
  by (cases ts) (simp_all add: instant_def astimezone_def localize_utc_def)

lemma can_start_run_count:
  "can_start_run tz now uid st
     = (length (filter (\<lambda>ts. instant (get_last_3am_pacific tz now) < utc_instant ts)
                  (case map_of (history st) uid of None \<Rightarrow> [] | Some l \<Rightarrow> l))
          < MAX_RUNS_PER_DAY)"
  by (simp add: can_start_run_def Let_def instant_run_time count_fold_filter)

lemma anchor_instant:
  "instant (get_last_3am_pacific tz now)
     = (let w = now + tz now
        in if w mod DAY < 3 * HOUR then w - w mod DAY + 3 * HOUR - DAY - tz now
           else w - w mod DAY + 3 * HOUR - tz now)"
proof -
  have m: "(now + tz now) div DAY * DAY = (now + tz now) - (now + tz now) mod DAY"
    by (simp add: minus_mod_eq_div_mult)
  show ?thesis
    by (auto simp: get_last_3am_pacific_def Let_def instant_def astimezone_def localize_utc_def m)
qed

lemma last_occurrence:
  fixes W D h :: int
  assumes D: "0 < D" and h: "0 \<le> h" "h < D"
  defines "A \<equiv> (if W mod D < h then W - W mod D + h - D else W - W mod D + h)"
  shows "A \<le> W" and "W < A + D" and "A mod D = h"
    and "\<And>T. T \<le> W \<Longrightarrow> T mod D = h \<Longrightarrow> T \<le> A"
proof -
  have r: "0 \<le> W mod D" "W mod D < D" using D by simp_all
  show le: "A \<le> W"
  proof (cases "W mod D < h")
    case True
    have "W - W mod D + h - D \<le> W" using r h by linarith
    with True show ?thesis by (simp only: A_def if_True)
  next
    case False
    have "W - W mod D + h \<le> W" using False by linarith
    with False show ?thesis by (simp only: A_def if_False)
  qed
  show lt: "W < A + D"
  proof (cases "W mod D < h")
    case True
    have "W < W - W mod D + h - D + D" using True by linarith
    with True show ?thesis by (simp only: A_def if_True)
  next
    case False
    have "W < W - W mod D + h + D" using r h by linarith
    with False show ?thesis by (simp only: A_def if_False)
  qed
  have q: "W - W mod D = D * (W div D)" by (simp add: minus_mod_eq_mult_div)
  have "A = D * (W div D) + h - D \<or> A = D * (W div D) + h"
    unfolding A_def using q by auto
  then have "A = D * (W div D - 1) + h \<or> A = D * (W div D) + h"
    by (auto simp: algebra_simps)
  then show m: "A mod D = h" using h D by auto
  show "T \<le> A" if "T \<le> W" "T mod D = h" for T
  proof (rule ccontr)
    assume "\<not> T \<le> A"
    then have pos: "0 < T - A" by simp
    have "T mod D = A mod D" using that m by simp
    then have "D dvd T - A" by (simp add: mod_eq_dvd_iff)
    with pos have "D \<le> T - A" using zdvd_imp_le [of D "T - A"] by simp
    with that lt show False by simp
  qed
qed

lemma anchor_last_3am:
  "instant (get_last_3am_pacific tz now) \<le> now \<and>
   now < instant (get_last_3am_pacific tz now) + DAY \<and>
   (instant (get_last_3am_pacific tz now) + tz now) mod DAY = 3 * HOUR \<and>
   (\<forall>t. t \<le> now \<and> (t + tz now) mod DAY = 3 * HOUR \<longrightarrow>
        t \<le> instant (get_last_3am_pacific tz now))"
proof -
  define W where "W = now + tz now"
  define A where "A = (if W mod DAY < 3 * HOUR then W - W mod DAY + 3 * HOUR - DAY
                       else W - W mod DAY + 3 * HOUR)"
  have a: "instant (get_last_3am_pacific tz now) = A - tz now"
    by (simp add: anchor_instant Let_def A_def W_def)
  have c: "(0::int) < DAY" "(0::int) \<le> 3 * HOUR" "3 * HOUR < DAY"
    by (simp_all add: DAY_def HOUR_def)
  have p: "A \<le> W" "W < A + DAY" "A mod DAY = 3 * HOUR"
    unfolding A_def by (rule last_occurrence [OF c])+
  have p4: "T \<le> A" if "T \<le> W" "T mod DAY = 3 * HOUR" for T
    unfolding A_def using that by (rule last_occurrence(4) [OF c])
  have 1: "A - tz now \<le> now" using p(1) by (simp add: W_def)
  have 2: "now < A - tz now + DAY" using p(2) by (simp add: W_def)
  have 3: "(A - tz now + tz now) mod DAY = 3 * HOUR" using p(3) by simp
  have 4: "t \<le> A - tz now" if "t \<le> now" "(t + tz now) mod DAY = 3 * HOUR" for t
  proof -
    have "t + tz now \<le> W" using that(1) by (simp add: W_def)
    from p4 [OF this that(2)] show ?thesis by simp
  qed
  show ?thesis
    unfolding a using 1 2 3 4 by blast
qed

text \<open>
  When the zone keeps its offset from the anchor to \<open>now\<close>, the anchor is the last
  instant up to \<open>now\<close> at which the zone's own wall clock shows 03:00.
\<close>

lemma anchor_is_zone_3am:
  assumes "\<forall>t. instant (get_last_3am_pacific tz now) \<le> t \<and> t \<le> now \<longrightarrow> tz t = tz now"
  shows "(instant (get_last_3am_pacific tz now)
            + tz (instant (get_last_3am_pacific tz now))) mod DAY = 3 * HOUR \<and>
         (\<forall>t. instant (get_last_3am_pacific tz now) < t \<and> t \<le> now \<longrightarrow>
              (t + tz t) mod DAY \<noteq> 3 * HOUR)"
proof -
  let ?A = "instant (get_last_3am_pacific tz now)"
  have le: "?A \<le> now"
    and m: "(?A + tz now) mod DAY = 3 * HOUR"
    and last: "\<And>t. t \<le> now \<Longrightarrow> (t + tz now) mod DAY = 3 * HOUR \<Longrightarrow> t \<le> ?A"
    using anchor_last_3am [of tz now] by blast+
  have same: "tz t = tz now" if "?A \<le> t" "t \<le> now" for t
    using assms that by blast
  have 1: "(?A + tz ?A) mod DAY = 3 * HOUR"
    using m same [of ?A] le by (simp only: order_refl)
  have 2: "(t + tz t) mod DAY \<noteq> 3 * HOUR" if lt: "?A < t" and tn: "t \<le> now" for t
  proof
    assume "(t + tz t) mod DAY = 3 * HOUR"
    moreover have "tz t = tz now" using same [of t] lt tn by (simp only: less_imp_le)
    ultimately have "(t + tz now) mod DAY = 3 * HOUR" by (simp only:)
    from last [OF tn this] lt show False by linarith
  qed
  show ?thesis using 1 2 by blast
qed

text \<open>
  What \<open>can_start_run\<close> computes: it holds exactly when fewer than
  \<open>MAX_RUNS_PER_DAY\<close> of the player's stored start stamps lie strictly after the
  anchor, a stamp without a zone being read as a UTC instant. The anchor is an instant
  at or before \<open>now\<close> and less than a day back, at which a wall clock shows 03:00, and
  no later instant up to \<open>now\<close> shows 03:00, when the wall clock is read at the offset
  that the zone has at \<open>now\<close>, the offset that \<open>datetime.now(tz)\<close> attaches and that
  \<open>replace\<close> and the subtraction of a day keep.
\<close>

lemma can_start_run_counts_since_anchor:
  "instant (get_last_3am_pacific tz now) \<le> now \<and>
   now < instant (get_last_3am_pacific tz now) + DAY \<and>
   (instant (get_last_3am_pacific tz now) + tz now) mod DAY = 3 * HOUR \<and>
   (\<forall>t. t \<le> now \<and> (t + tz now) mod DAY = 3 * HOUR \<longrightarrow>
        t \<le> instant (get_last_3am_pacific tz now)) \<and>
   (can_start_run tz now uid st \<longleftrightarrow>
      length (filter (\<lambda>ts. instant (get_last_3am_pacific tz now) < utc_instant ts)
                (case map_of (history st) uid of None \<Rightarrow> [] | Some l \<Rightarrow> l))
        < MAX_RUNS_PER_DAY)"
  using anchor_last_3am [of tz now] can_start_run_count [of tz now uid st] by blast

lemma no_occurrence_between:
  fixes A T D h :: int
  assumes "A mod D = h" and "A < T" and "T < A + D"
  shows "T mod D \<noteq> h"
proof
  assume "T mod D = h"
  with assms(1) have "T mod D = A mod D" by simp
  then have "D dvd T - A" by (simp add: mod_eq_dvd_iff)
  moreover have "0 < T - A" using assms(2) by simp
  ultimately have "D \<le> T - A" using zdvd_imp_le [of D "T - A"] by simp
  with assms(3) show False by simp
qed

text \<open>
  After 31 October 2026, 10:00 UTC, the zone's clock does not show 03:00 again up to
  01:30 standard time of the next night.
\<close>

lemma no_3am_until_fall_back_night:
  assumes "20757 * DAY + 10 * HOUR < t" and "t \<le> fall_back_night"
  shows "(t + us_pacific_2026 t) mod DAY \<noteq> 3 * HOUR"
proof -
  have w: "(20757 * DAY + 3 * HOUR) mod DAY = 3 * HOUR"
    by (simp add: DAY_def HOUR_def)
  show ?thesis
  proof (rule no_occurrence_between [OF w])
    show "20757 * DAY + 3 * HOUR < t + us_pacific_2026 t"
      using assms by (simp add: us_pacific_2026_def fall_back_night_def DAY_def HOUR_def)
    show "t + us_pacific_2026 t < 20757 * DAY + 3 * HOUR + DAY"
      using assms by (simp add: us_pacific_2026_def fall_back_night_def DAY_def HOUR_def)
  qed
qed

text \<open>
  C2, the code at the failing input. It is 1 November 2026, 09:30 UTC: 01:30 Pacific
  standard time, half an hour after the clocks went back. The zone's last 03:00 was
  31 October, 03:00 daylight time, which is 10:00 UTC (no later instant up to now shows
  03:00 in the zone, as the lemma above says). The player started two runs after it, at
  10:15 and 10:30 UTC.
  \<open>get_last_3am_pacific\<close> takes today's 03:00 at the standard-time offset of now
  and steps back one day with that offset kept: its anchor is 31 October 11:00 UTC, when
  the zone's clock showed 04:00. Neither start lies after that anchor, and
  \<open>can_start_run\<close> lets the player start a third run.
\<close>

theorem can_start_run_fall_back_night:
  "instant (get_last_3am_pacific us_pacific_2026 fall_back_night) = 20757 * DAY + 11 * HOUR \<and>
   (20757 * DAY + 11 * HOUR + us_pacific_2026 (20757 * DAY + 11 * HOUR)) mod DAY = 4 * HOUR \<and>
   20757 * DAY + 10 * HOUR \<le> fall_back_night \<and>
   (20757 * DAY + 10 * HOUR + us_pacific_2026 (20757 * DAY + 10 * HOUR)) mod DAY = 3 * HOUR \<and>
   map utc_instant (case map_of (history demo_fall_back) 1 of None \<Rightarrow> [] | Some l \<Rightarrow> l)
     = [20757 * DAY + 10 * HOUR + HOUR div 4, 20757 * DAY + 10 * HOUR + HOUR div 2] \<and>
   20757 * DAY + 10 * HOUR < 20757 * DAY + 10 * HOUR + HOUR div 4 \<and>
   can_start_run us_pacific_2026 fall_back_night 1 demo_fall_back"
proof -
  have a: "instant (get_last_3am_pacific us_pacific_2026 fall_back_night)
             = 20757 * DAY + 11 * HOUR"
    by (simp add: anchor_instant Let_def us_pacific_2026_def fall_back_night_def DAY_def HOUR_def)
  have b: "(20757 * DAY + 11 * HOUR + us_pacific_2026 (20757 * DAY + 11 * HOUR)) mod DAY
             = 4 * HOUR"
    by (simp add: us_pacific_2026_def DAY_def HOUR_def)
  have c: "20757 * DAY + 10 * HOUR \<le> fall_back_night"
    by (simp add: fall_back_night_def DAY_def HOUR_def)
  have d: "(20757 * DAY + 10 * HOUR + us_pacific_2026 (20757 * DAY + 10 * HOUR)) mod DAY
             = 3 * HOUR"
    by (simp add: us_pacific_2026_def DAY_def HOUR_def)
  have f: "map utc_instant (case map_of (history demo_fall_back) 1 of None \<Rightarrow> [] | Some l \<Rightarrow> l)
             = [20757 * DAY + 10 * HOUR + HOUR div 4, 20757 * DAY + 10 * HOUR + HOUR div 2]"
    by (simp add: demo_fall_back_def)
  have g: "20757 * DAY + 10 * HOUR < 20757 * DAY + 10 * HOUR + HOUR div 4"
    by (simp add: HOUR_def)
  have h: "can_start_run us_pacific_2026 fall_back_night 1 demo_fall_back"
    unfolding can_start_run_count a
    by (simp add: demo_fall_back_def DAY_def HOUR_def MAX_RUNS_PER_DAY_def)
  show ?thesis
    using a b c d f g h by (intro conjI)
qed

end
